theory Spec2Isabelle
  imports Complex_Main "HOL-Library.AList"
begin

section \<open>Python values and exceptions\<close>

text \<open>
  The exceptions the modelled code can raise.  A computation that may raise returns
  \<open>py_error + 'a\<close>, with \<open>Inl\<close> the exception.
\<close>

datatype py_error = IndexError | KeyError | ValueError | TypeError | AttributeError

text \<open>\<open>xs.index(x)\<close>: the first position of \<open>x\<close>, ValueError when absent.\<close>

fun py_index :: "'a list \<Rightarrow> 'a \<Rightarrow> py_error + nat" where
  "py_index [] x = Inl ValueError"
| "py_index (y # ys) x =
     (if y = x then Inr 0
      else (case py_index ys x of Inl e \<Rightarrow> Inl e | Inr i \<Rightarrow> Inr (Suc i)))"

text \<open>\<open>xs[i]\<close> for a non-negative index: IndexError when out of range.\<close>

definition py_getitem :: "'a list \<Rightarrow> nat \<Rightarrow> py_error + 'a" where
  "py_getitem xs i = (if i < length xs then Inr (xs ! i) else Inl IndexError)"

text \<open>\<open>del xs[i]\<close> for a non-negative index: IndexError when out of range.\<close>

definition py_del :: "'a list \<Rightarrow> nat \<Rightarrow> py_error + 'a list" where
  "py_del xs i = (if i < length xs then Inr (take i xs @ drop (Suc i) xs) else Inl IndexError)"

text \<open>A loop whose body may raise: the first exception ends it.\<close>

fun for_each :: "('a \<Rightarrow> py_error + 'b) \<Rightarrow> 'a list \<Rightarrow> py_error + 'b list" where
  "for_each f [] = Inr []"
| "for_each f (x # xs) =
     (case f x of Inl e \<Rightarrow> Inl e
      | Inr y \<Rightarrow> (case for_each f xs of Inl e \<Rightarrow> Inl e | Inr ys \<Rightarrow> Inr (y # ys)))"

section \<open>Candidate pairs and the network matrix\<close>

text \<open>
  A row of the network matrix, as far as \<open>bigscape.py\<close> reads it: \<open>int(row[0])\<close>,
  \<open>int(row[1])\<close> and \<open>row[2]\<close>, the two cluster indices and their distance.  The code only
  compares distances, so their type is any linear order.
\<close>

type_synonym 'd row = "nat \<times> nat \<times> 'd"

text \<open>\<open>itertools.combinations(xs, 2)\<close>.\<close>

fun combinations2 :: "'a list \<Rightarrow> ('a \<times> 'a) list" where
  "combinations2 [] = []"
| "combinations2 (x # xs) = map (Pair x) xs @ combinations2 xs"

text \<open>\<open>itertools.product(xs, ys)\<close>, imported as \<open>combinations_product\<close>.\<close>

definition combinations_product :: "'a list \<Rightarrow> 'b list \<Rightarrow> ('a \<times> 'b) list" where
  "combinations_product xs ys = concat (map (\<lambda>x. map (Pair x) ys) xs)"

text \<open>\<open>tuple(sorted(combo))\<close> for a pair of indices.\<close>

definition sorted_tuple :: "nat \<times> nat \<Rightarrow> nat \<times> nat" where
  "sorted_tuple combo = (min (fst combo) (snd combo), max (fst combo) (snd combo))"

text \<open>
  \<open>set([...])\<close>, listed in the order a later loop reads it.  Python fixes no iteration order
  for a set; the order chosen here is one of them, and the properties proved below speak of
  membership and multiplicity only.
\<close>

definition py_set :: "'a list \<Rightarrow> 'a list" where
  "py_set xs = remdups xs"

text \<open>\<open>CLUSTER_PAIRS = [(x, y, tag) for (x, y) in PAIRS]\<close>; the tag is \<open>-1\<close> for the mix
  and \<open>BGC_CLASS_NAME_2_INDEX[bgc_class]\<close> for a class.\<close>

definition cluster_pairs :: "'t \<Rightarrow> (nat \<times> nat) list \<Rightarrow> (nat \<times> nat \<times> 't) list" where
  "cluster_pairs tag PAIRS = map (\<lambda>(x, y). (x, y, tag)) PAIRS"

text \<open>
  Modelled from the spec: \<open>big_scape.generate_network\<close> is not among the sources.  The spec
  has it return one distance record per requested pair (``the pipeline must produce a
  complete matrix for all requested pairs''), each computed independently of the others.
  The distance computation itself is the parameter \<open>distance_of\<close>.
\<close>

definition generate_network ::
  "(nat \<Rightarrow> nat \<Rightarrow> 't \<Rightarrow> 'd) \<Rightarrow> (nat \<times> nat \<times> 't) list \<Rightarrow> 'd row list" where
  "generate_network distance_of CLUSTER_PAIRS = map (\<lambda>(x, y, tag). (x, y, distance_of x y tag)) CLUSTER_PAIRS"

text \<open>\<open>for idx in ...: del xs[idx]\<close>.\<close>

fun del_each :: "'a list \<Rightarrow> nat list \<Rightarrow> py_error + 'a list" where
  "del_each xs [] = Inr xs"
| "del_each xs (idx # rest) =
     (case py_del xs idx of Inl e \<Rightarrow> Inl e | Inr xs' \<Rightarrow> del_each xs' rest)"

text \<open>\<open>sorted(xs, reverse=True)\<close> on indices.\<close>

definition sorted_reverse :: "nat list \<Rightarrow> nat list" where
  "sorted_reverse xs = rev (sort xs)"

subsection \<open>Query mode: the rest of the edges of the query network\<close>

text \<open>
  \<open>bigscape.py\<close>, lines 728--741 (and 504--516 for the mix): one pass over
  \<open>enumerate(network_matrix)\<close> that fills \<open>NEW_SET\<close> and \<open>DEL_LIST\<close>.
\<close>

definition query_scan_step ::
  "nat \<Rightarrow> 'd::linorder \<Rightarrow> nat list \<times> nat list \<Rightarrow> nat \<times> 'd row \<Rightarrow> nat list \<times> nat list" where
  "query_scan_step QUERY_BGC_IDX max_cutoff acc irow =
     (case acc of (NEW_SET, DEL_LIST) \<Rightarrow>
      case irow of (idx, a, b, distance) \<Rightarrow>
        if a = b then (NEW_SET, DEL_LIST)
        else if distance \<le> max_cutoff then
          (if a = QUERY_BGC_IDX then (NEW_SET @ [b], DEL_LIST) else (NEW_SET @ [a], DEL_LIST))
        else (NEW_SET, DEL_LIST @ [idx]))"

definition query_scan :: "nat \<Rightarrow> 'd::linorder \<Rightarrow> 'd row list \<Rightarrow> nat list \<times> nat list" where
  "query_scan QUERY_BGC_IDX max_cutoff network_matrix =
     foldl (query_scan_step QUERY_BGC_IDX max_cutoff) ([], []) (enumerate 0 network_matrix)"

text \<open>
  Lines 722--762 (475--537 for the mix): prune the rows of \<open>DEL_LIST\<close>, compute the
  distances within \<open>NEW_SET\<close>, extend the matrix, and replace the member list.  The result
  is the matrix, the member list, and the pairs handed to the second
  \<open>generate_network\<close> call.
\<close>

definition query_expand ::
  "(nat \<Rightarrow> nat \<Rightarrow> 't \<Rightarrow> 'd) \<Rightarrow> 't \<Rightarrow> nat \<Rightarrow> 'd::linorder \<Rightarrow> 'd row list
     \<Rightarrow> py_error + ('d row list \<times> nat list \<times> (nat \<times> nat) list)" where
  "query_expand distance_of tag QUERY_BGC_IDX max_cutoff network_matrix =
     (case query_scan QUERY_BGC_IDX max_cutoff network_matrix of (NEW_SET, DEL_LIST) \<Rightarrow>
      case del_each network_matrix (sorted_reverse DEL_LIST) of
        Inl e \<Rightarrow> Inl e
      | Inr pruned \<Rightarrow>
          let PAIRS = py_set (map sorted_tuple (combinations2 NEW_SET));
              NETWORK_MATRIX_NEW_SET = generate_network distance_of (cluster_pairs tag PAIRS)
          in Inr (pruned @ NETWORK_MATRIX_NEW_SET, sort (NEW_SET @ [QUERY_BGC_IDX]), PAIRS))"

subsection \<open>Reference mode: components made of reference clusters only\<close>

text \<open>
  The undirected graph \<open>N\<close> of \<open>networkx\<close>: its nodes, and its edges keyed by the
  unordered pair of endpoints, each with the attribute \<open>index\<close>.  Adding an edge that is
  already there overwrites the attribute.
\<close>

record graph =
  nodes :: "nat list"
  edges :: "((nat \<times> nat) \<times> nat) list"

definition empty_graph :: graph where
  "empty_graph = \<lparr>nodes = [], edges = []\<rparr>"

definition add_node :: "graph \<Rightarrow> nat \<Rightarrow> graph" where
  "add_node g n = (if n \<in> set (nodes g) then g else g\<lparr>nodes := nodes g @ [n]\<rparr>)"

definition add_nodes_from :: "graph \<Rightarrow> nat list \<Rightarrow> graph" where
  "add_nodes_from g ns = foldl add_node g ns"

definition add_edge :: "graph \<Rightarrow> nat \<Rightarrow> nat \<Rightarrow> nat \<Rightarrow> graph" where
  "add_edge g a b idx =
     (let g' = add_node (add_node g a) b
      in g'\<lparr>edges := AList.update (sorted_tuple (a, b)) idx (edges g')\<rparr>)"

text \<open>Two nodes are connected_nodes when a path of edges joins them.\<close>

definition edge_rel :: "graph \<Rightarrow> (nat \<times> nat) set" where
  "edge_rel g = set (map fst (edges g)) \<union> set (map (\<lambda>e. (snd (fst e), fst (fst e))) (edges g))"

definition connected_nodes :: "graph \<Rightarrow> nat \<Rightarrow> nat \<Rightarrow> bool" where
  "connected_nodes g u v = (u = v \<or> (u, v) \<in> (edge_rel g)\<^sup>+)"

text \<open>\<open>nx.connected_components(N)\<close>: every component once, as the list of its nodes.\<close>

definition component :: "graph \<Rightarrow> nat \<Rightarrow> nat list" where
  "component g v = filter (connected_nodes g v) (nodes g)"

definition connected_components :: "graph \<Rightarrow> nat list list" where
  "connected_components g = remdups (map (component g) (nodes g))"

text \<open>\<open>N.subgraph(ns).edges.data('index')\<close>: the \<open>index\<close> of every edge with both ends in
  \<open>ns\<close>.\<close>

definition subgraph_edge_indices :: "graph \<Rightarrow> nat list \<Rightarrow> nat list" where
  "subgraph_edge_indices g ns =
     map snd (filter (\<lambda>e. fst (fst e) \<in> set ns \<and> snd (fst e) \<in> set ns) (edges g))"

text \<open>Lines 780--783: an edge for every row at or below the loosest cutoff.\<close>

definition add_row_edge :: "'d::linorder \<Rightarrow> graph \<Rightarrow> nat \<times> 'd row \<Rightarrow> graph" where
  "add_row_edge max_cutoff N irow =
     (case irow of (idx, a, b, distance) \<Rightarrow>
        if distance \<le> max_cutoff then add_edge N a b idx else N)"

definition cutoff_graph :: "'d::linorder \<Rightarrow> nat list \<Rightarrow> 'd row list \<Rightarrow> graph" where
  "cutoff_graph max_cutoff bgcs network_matrix =
     foldl (add_row_edge max_cutoff) (add_nodes_from empty_graph bgcs) (enumerate 0 network_matrix)"

text \<open>Lines 785--791: the nodes of the components that lie within the reference set.\<close>

definition mibig_set_del :: "nat set \<Rightarrow> graph \<Rightarrow> nat list" where
  "mibig_set_del MIBIG_SET_INDICES N =
     concat (map (\<lambda>component.
                    if card (set component \<inter> MIBIG_SET_INDICES) = length component
                    then component else [])
              (connected_components N))"

text \<open>Lines 803--807: \<open>bgc_to_class_idx\<close> and the deletion of the marked members by
  position.\<close>

definition bgc_to_class_idx :: "nat list \<Rightarrow> (nat \<rightharpoonup> nat)" where
  "bgc_to_class_idx bgcs = foldl (\<lambda>m (idx, bgc). m(bgc \<mapsto> idx)) Map.empty (enumerate 0 bgcs)"

fun del_members :: "(nat \<rightharpoonup> nat) \<Rightarrow> nat list \<Rightarrow> nat list \<Rightarrow> py_error + nat list" where
  "del_members tbl bgcs [] = Inr bgcs"
| "del_members tbl bgcs (bgc_idx # rest) =
     (case tbl bgc_idx of
        None \<Rightarrow> Inl KeyError
      | Some i \<Rightarrow> (case py_del bgcs i of Inl e \<Rightarrow> Inl e | Inr bgcs' \<Rightarrow> del_members tbl bgcs' rest))"

text \<open>Lines 774--808 (552--588 for the mix): the whole pruning step.\<close>

definition mibig_prune ::
  "nat set \<Rightarrow> 'd::linorder \<Rightarrow> nat list \<Rightarrow> 'd row list \<Rightarrow> py_error + ('d row list \<times> nat list)" where
  "mibig_prune MIBIG_SET_INDICES max_cutoff bgcs network_matrix =
     (let N = cutoff_graph max_cutoff bgcs network_matrix;
          MIBIG_SET_DEL = mibig_set_del MIBIG_SET_INDICES N;
          NETWORK_MATRIX_SET_DEL = subgraph_edge_indices N MIBIG_SET_DEL
      in case del_each network_matrix (sorted_reverse NETWORK_MATRIX_SET_DEL) of
           Inl e \<Rightarrow> Inl e
         | Inr matrix' \<Rightarrow>
             (case del_members (bgc_to_class_idx bgcs) bgcs (sorted_reverse MIBIG_SET_DEL) of
                Inl e \<Rightarrow> Inl e
              | Inr bgcs' \<Rightarrow> Inr (matrix', bgcs')))"

section \<open>Processing one group of clusters\<close>

text \<open>
  The run settings the group code reads: \<open>RUN.directories.has_query_bgc\<close>,
  \<open>QUERY_BGC_IDX\<close>, \<open>RUN.mibig.use_mibig\<close>, \<open>MIBIG_SET_INDICES\<close> and
  \<open>RUN.cluster.max_cutoff\<close>.
\<close>

record 'd run_settings =
  has_query_bgc :: bool
  query_bgc_idx :: nat
  use_mibig :: bool
  mibig_set_indices :: "nat set"
  run_max_cutoff :: 'd

text \<open>
  What the code does with a group.  \<open>Written matrix bgcs\<close>: the matrix goes to
  \<open>write_network_matrix\<close> and, with the member list, to \<open>clusterJsonBatch\<close>.
  \<open>Skipped\<close>: a \<open>continue\<close> before both calls, with the guard that took it.
\<close>

datatype skip_reason = QueryNotInClass | AllMibig | FewerThanTwo

datatype 'd outcome = Skipped skip_reason | Written "'d row list" "nat list"

text \<open>
  The result also records the pair lists handed to \<open>generate_network\<close>, call by call,
  and the member list of the group as the code leaves it before the size guard of line 812
  (\<open>RUN.distance.bgc_classes[bgc_class]\<close>, or \<open>MIX_SET\<close>).
\<close>

record 'd group_result =
  requested :: "(nat \<times> nat) list list"
  bgc_list :: "nat list"
  outcome :: "'d outcome"

text \<open>Lines 812--813, then 815--848.\<close>

definition write_and_cluster :: "'d row list \<Rightarrow> nat list \<Rightarrow> 'd outcome" where
  "write_and_cluster network_matrix bgcs =
     (if length bgcs < 2 then Skipped FewerThanTwo else Written network_matrix bgcs)"

text \<open>
  The body of the loop over \<open>RUN.distance.bgc_classes\<close>, lines 679--848, for one class
  with member list \<open>bgcs\<close>; \<open>tag\<close> is \<open>BGC_CLASS_NAME_2_INDEX[bgc_class]\<close>.
\<close>

definition class_group ::
  "'d::linorder run_settings \<Rightarrow> (nat \<Rightarrow> nat \<Rightarrow> 't \<Rightarrow> 'd) \<Rightarrow> 't \<Rightarrow> nat list
     \<Rightarrow> py_error + 'd group_result" where
  "class_group run distance_of tag bgcs =
     (if has_query_bgc run \<and> query_bgc_idx run \<notin> set bgcs then
        Inr \<lparr>requested = [], bgc_list = bgcs, outcome = Skipped QueryNotInClass\<rparr>
      else if use_mibig run \<and> card (set bgcs \<inter> mibig_set_indices run) = length bgcs then
        Inr \<lparr>requested = [], bgc_list = bgcs, outcome = Skipped AllMibig\<rparr>
      else
        let PAIRS = py_set (map sorted_tuple
                      (if has_query_bgc run then combinations_product [query_bgc_idx run] bgcs
                       else combinations2 bgcs));
            network_matrix = generate_network distance_of (cluster_pairs tag PAIRS)
        in if has_query_bgc run then
             (case query_expand distance_of tag (query_bgc_idx run) (run_max_cutoff run)
                     network_matrix of
                Inl e \<Rightarrow> Inl e
              | Inr (matrix, bgcs', PAIRS2) \<Rightarrow>
                  Inr \<lparr>requested = [PAIRS, PAIRS2], bgc_list = bgcs',
                       outcome = write_and_cluster matrix bgcs'\<rparr>)
           else if use_mibig run then
             (case mibig_prune (mibig_set_indices run) (run_max_cutoff run) bgcs network_matrix of
                Inl e \<Rightarrow> Inl e
              | Inr (matrix, bgcs') \<Rightarrow>
                  Inr \<lparr>requested = [PAIRS], bgc_list = bgcs',
                       outcome = write_and_cluster matrix bgcs'\<rparr>)
           else Inr \<lparr>requested = [PAIRS], bgc_list = bgcs,
                     outcome = write_and_cluster network_matrix bgcs\<rparr>)"


section \<open>Families\<close>

text \<open>
  Modelled from the spec: \<open>big_scape.clusterJsonBatch\<close>, which calls the families of a
  group, is not among the sources.  The spec has it build, for each cutoff, the graph whose
  edges are the matrix rows with distance at or below the cutoff and report its connected
  components as the families.  The nodes are the member list handed over at the call
  (lines 837--842, and 612--616 for the mix).
\<close>

definition families_at :: "'d::linorder \<Rightarrow> nat list \<Rightarrow> 'd row list \<Rightarrow> nat list list" where
  "families_at cutoff bgcs matrix = connected_components (cutoff_graph cutoff bgcs matrix)"

section \<open>Notions used to state the properties\<close>




definition row_pair :: "'d row \<Rightarrow> nat \<times> nat" where
  "row_pair r = (fst r, fst (snd r))"

text \<open>A row that gives an edge of the cutoff graph: its distance is at or below the cutoff.\<close>

definition edge_row :: "'d::linorder \<Rightarrow> 'd row \<Rightarrow> bool" where
  "edge_row mc r = (snd (snd r) \<le> mc)"

text \<open>A row whose record is an edge between two of the given nodes.\<close>

definition inner_edge_row :: "'d::linorder \<Rightarrow> nat set \<Rightarrow> 'd row \<Rightarrow> bool" where
  "inner_edge_row mc D r = (edge_row mc r \<and> fst r \<in> D \<and> fst (snd r) \<in> D)"
section \<open>Family data: conversion of global indices into input-only indices\<close>

text \<open>
  A family record of the run data carries the key \<open>members\<close> and, after the update, the key
  \<open>mibig\<close>; its other keys are the record's extension.  A network holds its families under
  the key \<open>families\<close>; \<open>RUNDATA_NETWORKS_PER_RUN\<close> maps a folder name to a list of
  networks, iterated in insertion order.
\<close>

record family =
  members :: "nat list"
  mibig :: "string list"

record network =
  families :: "family list"

type_synonym rundata = "(string \<times> network list) list"

text \<open>
  \<open>bigscape.py\<close>, lines 855--859: \<open>INPUT_CLUSTERS_IDX\<close> lists, in order, the positions in
  \<open>CLUSTER_NAMES\<close> whose name is not in \<open>MIBIG_SET\<close>.
\<close>

definition input_clusters_idx :: "string list \<Rightarrow> string set \<Rightarrow> nat list" where
  "input_clusters_idx cluster_names mibig_set =
     map fst (filter (\<lambda>(idx, bgc). bgc \<notin> mibig_set) (enumerate 0 cluster_names))"

subsection \<open>\<open>update_family_data\<close> of \<open>big_scape/util.py\<close>\<close>

text \<open>The loop over \<open>family["members"]\<close>, with the two lists it appends to.\<close>

fun util_members_loop ::
  "nat list \<Rightarrow> string list \<Rightarrow> string set \<Rightarrow> nat list \<Rightarrow> nat list \<Rightarrow> string list
     \<Rightarrow> py_error + (nat list \<times> string list)" where
  "util_members_loop input_idx cluster_names mibig_set [] new_members mibig_acc =
     Inr (new_members, mibig_acc)"
| "util_members_loop input_idx cluster_names mibig_set (bgc_idx # rest) new_members mibig_acc =
     (if bgc_idx \<in> set input_idx then
        (case py_index input_idx bgc_idx of
           Inl e \<Rightarrow> Inl e
         | Inr i \<Rightarrow> util_members_loop input_idx cluster_names mibig_set rest
                      (new_members @ [i]) mibig_acc)
      else
        (case py_getitem cluster_names bgc_idx of
           Inl e \<Rightarrow> Inl e
         | Inr cluster_name \<Rightarrow>
             if cluster_name \<in> mibig_set
             then util_members_loop input_idx cluster_names mibig_set rest
                    new_members (mibig_acc @ [cluster_name])
             else util_members_loop input_idx cluster_names mibig_set rest
                    new_members mibig_acc))"

definition util_update_family ::
  "nat list \<Rightarrow> string list \<Rightarrow> string set \<Rightarrow> family \<Rightarrow> py_error + family" where
  "util_update_family input_idx cluster_names mibig_set fam =
     (case util_members_loop input_idx cluster_names mibig_set (members fam) [] [] of
        Inl e \<Rightarrow> Inl e
      | Inr (new_members, mibig_acc) \<Rightarrow>
          Inr (fam\<lparr>mibig := mibig_acc, members := new_members\<rparr>))"

definition util_update_network ::
  "nat list \<Rightarrow> string list \<Rightarrow> string set \<Rightarrow> network \<Rightarrow> py_error + network" where
  "util_update_network input_idx cluster_names mibig_set net =
     (case for_each (util_update_family input_idx cluster_names mibig_set) (families net) of
        Inl e \<Rightarrow> Inl e
      | Inr fams \<Rightarrow> Inr (net\<lparr>families := fams\<rparr>))"

definition update_family_data ::
  "rundata \<Rightarrow> nat list \<Rightarrow> string list \<Rightarrow> string set \<Rightarrow> py_error + rundata" where
  "update_family_data rundata_networks_per_run input_idx cluster_names mibig_set =
     for_each (\<lambda>(network_key, networks).
         case for_each (util_update_network input_idx cluster_names mibig_set) networks of
           Inl e \<Rightarrow> Inl e
         | Inr nets \<Rightarrow> Inr (network_key, nets))
       rundata_networks_per_run"

subsection \<open>The inline loop of \<open>bigscape.py\<close>, lines 888--902\<close>

text \<open>
  The loop reads the globals \<open>RUNDATA_NETWORKS_PER_RUN\<close>, \<open>INPUT_CLUSTERS_IDX\<close>,
  \<open>CLUSTER_NAMES\<close> and \<open>MIBIG_SET\<close>; they are the arguments here.
\<close>

fun inline_members_loop ::
  "nat list \<Rightarrow> string list \<Rightarrow> string set \<Rightarrow> nat list \<Rightarrow> nat list \<times> string list
     \<Rightarrow> py_error + (nat list \<times> string list)" where
  "inline_members_loop INPUT_IDX CLUSTER_NAMES MIBIG_SET [] acc = Inr acc"
| "inline_members_loop INPUT_IDX CLUSTER_NAMES MIBIG_SET (bgcIdx # rest) (new_members, mibig_acc) =
     (if bgcIdx \<in> set INPUT_IDX then
        (case py_index INPUT_IDX bgcIdx of
           Inl e \<Rightarrow> Inl e
         | Inr i \<Rightarrow> inline_members_loop INPUT_IDX CLUSTER_NAMES MIBIG_SET rest
                      (new_members @ [i], mibig_acc))
      else
        (case py_getitem CLUSTER_NAMES bgcIdx of
           Inl e \<Rightarrow> Inl e
         | Inr clusterName \<Rightarrow>
             inline_members_loop INPUT_IDX CLUSTER_NAMES MIBIG_SET rest
               (new_members, if clusterName \<in> MIBIG_SET then mibig_acc @ [clusterName]
                             else mibig_acc)))"

definition inline_update_family ::
  "nat list \<Rightarrow> string list \<Rightarrow> string set \<Rightarrow> family \<Rightarrow> py_error + family" where
  "inline_update_family INPUT_IDX CLUSTER_NAMES MIBIG_SET fam =
     (case inline_members_loop INPUT_IDX CLUSTER_NAMES MIBIG_SET (members fam) ([], []) of
        Inl e \<Rightarrow> Inl e
      | Inr (new_members, mibig_acc) \<Rightarrow>
          Inr (fam\<lparr>mibig := mibig_acc, members := new_members\<rparr>))"

definition inline_family_update ::
  "rundata \<Rightarrow> nat list \<Rightarrow> string list \<Rightarrow> string set \<Rightarrow> py_error + rundata" where
  "inline_family_update RUNDATA INPUT_IDX CLUSTER_NAMES MIBIG_SET =
     for_each (\<lambda>(network_key, networks).
         case for_each (\<lambda>net.
                  case for_each (inline_update_family INPUT_IDX CLUSTER_NAMES MIBIG_SET)
                         (families net) of
                    Inl e \<Rightarrow> Inl e
                  | Inr fams \<Rightarrow> Inr (net\<lparr>families := fams\<rparr>)) networks of
           Inl e \<Rightarrow> Inl e
         | Inr nets \<Rightarrow> Inr (network_key, nets))
       RUNDATA"


section \<open>Properties of the network construction\<close>




lemma del_each_append:
  "del_each ys is = Inr r \<Longrightarrow> del_each (ys @ zs) is = Inr (r @ zs)"
proof (induction "is" arbitrary: ys)
  case Nil
  then show ?case by simp
next
  case (Cons i "is")
  from Cons.prems have lt: "i < length ys"
    by (auto simp: py_del_def split: if_splits)
  with Cons.prems have "del_each (take i ys @ drop (Suc i) ys) is = Inr r"
    by (simp add: py_del_def)
  from Cons.IH[OF this] have "del_each ((take i ys @ drop (Suc i) ys) @ zs) is = Inr (r @ zs)" .
  with lt show ?case by (simp add: py_del_def)
qed

lemma del_each_last: "del_each (ys @ [y]) (length ys # is) = del_each ys is"
  by (simp add: py_del_def)

lemma del_each_enumerate:
  "del_each xs (rev (map fst (filter (\<lambda>p. P (fst p) (snd p)) (enumerate 0 xs)))) =
   Inr (map snd (filter (\<lambda>p. \<not> P (fst p) (snd p)) (enumerate 0 xs)))"
proof (induction xs rule: rev_induct)
  case Nil
  show ?case by simp
next
  case (snoc y ys)
  have en: "enumerate 0 (ys @ [y]) = enumerate 0 ys @ [(length ys, y)]"
    by (simp add: enumerate_append_eq)
  show ?case
  proof (cases "P (length ys) y")
    case True
    then show ?thesis using snoc.IH by (simp add: en del_each_last del: del_each.simps)
  next
    case False
    then show ?thesis using del_each_append[OF snoc.IH, of "[y]"] by (simp add: en)
  qed
qed

lemma sorted_map_fst_filter_enumerate:
  "sorted (map fst (filter Q (enumerate n xs)))" and
  "distinct (map fst (filter Q (enumerate n xs)))"
proof -
  have "sorted (map fst (enumerate n xs))" by (simp add: map_fst_enumerate)
  then show "sorted (map fst (filter Q (enumerate n xs)))"
    by (simp add: filter_map[symmetric] sorted_filter)
  have "distinct (map fst (enumerate n xs))" by (simp add: map_fst_enumerate)
  then show "distinct (map fst (filter Q (enumerate n xs)))"
    by (rule distinct_map_filter)
qed

lemma sorted_reverse_sorted: "sorted xs \<Longrightarrow> sorted_reverse xs = rev xs"
  by (simp add: sorted_reverse_def sort_key_id_if_sorted)



lemma map_snd_filter_enumerate:
  "map snd (filter (\<lambda>p. Q (snd p)) (enumerate n xs)) = filter Q xs"
  by (induction xs arbitrary: n) simp_all



lemma set_combinations2: "set (combinations2 xs) \<subseteq> set xs \<times> set xs"
  by (induction xs) auto


lemma rows_of_generate_network:
  "generate_network distance_of (cluster_pairs tag PAIRS) =
     map (\<lambda>p. (fst p, snd p, distance_of (fst p) (snd p) tag)) PAIRS"
  by (simp add: generate_network_def cluster_pairs_def case_prod_beta)

lemma row_pairs_generate_network:
  "map row_pair (generate_network distance_of (cluster_pairs tag PAIRS)) = PAIRS"
  by (simp add: rows_of_generate_network row_pair_def comp_def)





















text \<open>
  C2 fails in query mode: the pair \<open>(0, 2)\<close> is requested in the first phase, its distance
  0.9 is above the loosest cutoff 0.7, and its record is not in the matrix that is written
  and clustered.
\<close>

theorem query_mode_prunes_far_rows:
  "\<exists>r matrix ms.
     class_group \<lparr>has_query_bgc = True, query_bgc_idx = 0, use_mibig = False,
                  mibig_set_indices = {}, run_max_cutoff = (0.7::real)\<rparr>
       (\<lambda>a b t. if (a, b) = (0, 0) then 0 else if (a, b) = (0, 1) then 0.2
               else if (a, b) = (0, 3) then 0.6 else 0.9) (0::nat) [0, 1, 2, 3] = Inr r
   \<and> outcome r = Written matrix ms
   \<and> (0, 2) \<in> set (concat (requested r))
   \<and> (0, 2) \<notin> row_pair ` set matrix"
proof -
  let ?run = "\<lparr>has_query_bgc = True, query_bgc_idx = 0, use_mibig = False,
                mibig_set_indices = {}, run_max_cutoff = (0.7::real)\<rparr>"
  let ?d = "\<lambda>(a::nat) (b::nat) (t::nat). if (a, b) = (0, 0) then 0 else if (a, b) = (0, 1) then 0.2
               else if (a, b) = (0, 3) then 0.6 else (0.9::real)"
  let ?r = "\<lparr>requested = [[(0, 0), (0, 1), (0, 2), (0, 3)], [(1, 3)]], bgc_list = [0, 1, 3],
        outcome = Written [(0, 0, 0), (0, 1, 0.2), (0, 3, 0.6), (1, 3, 0.9::real)] [0, 1, 3]\<rparr>"
  have e: "class_group ?run ?d 0 [0, 1, 2, 3] = Inr ?r"
    by code_simp
  have o: "outcome ?r = Written [(0, 0, 0), (0, 1, 0.2), (0, 3, 0.6), (1, 3, 0.9::real)] [0, 1, 3]"
    by simp
  have a: "(0, 2) \<in> set (concat (requested ?r))" by simp
  have b: "(0, 2) \<notin> row_pair ` set [(0, 0, 0), (0, 1, 0.2), (0, 3, 0.6), (1, 3, 0.9::real)]"
    by (simp add: row_pair_def)
  show ?thesis
    apply (rule exI[of _ ?r], rule exI[of _ "[(0, 0, 0), (0, 1, 0.2), (0, 3, 0.6), (1, 3, 0.9::real)]"])
    apply (rule exI[of _ "[0, 1, 3]"])
    apply (intro conjI)
       apply (rule e)
      apply (rule o)
     apply (rule a)
    apply (rule b)
    done
qed
section \<open>Properties of the reference-only pruning\<close>



lemma nodes_add_node: "set (nodes (add_node g n)) = insert n (set (nodes g))"
  by (auto simp: add_node_def)

lemma distinct_add_node: "distinct (nodes g) \<Longrightarrow> distinct (nodes (add_node g n))"
  by (simp add: add_node_def)

lemma edges_add_node: "edges (add_node g n) = edges g"
  by (simp add: add_node_def)

lemma add_nodes_from_props:
  "set (nodes (add_nodes_from g ns)) = set (nodes g) \<union> set ns"
  "distinct (nodes g) \<Longrightarrow> distinct (nodes (add_nodes_from g ns))"
  "edges (add_nodes_from g ns) = edges g"
proof -
  have "set (nodes (foldl add_node g ns)) = set (nodes g) \<union> set ns
      \<and> (distinct (nodes g) \<longrightarrow> distinct (nodes (foldl add_node g ns)))
      \<and> edges (foldl add_node g ns) = edges g"
  proof (induction ns arbitrary: g)
    case Nil
    show ?case by simp
  next
    case (Cons n ns)
    show ?case
      using Cons.IH[of "add_node g n"]
      by (auto simp: nodes_add_node distinct_add_node edges_add_node)
  qed
  then show "set (nodes (add_nodes_from g ns)) = set (nodes g) \<union> set ns"
    "distinct (nodes g) \<Longrightarrow> distinct (nodes (add_nodes_from g ns))"
    "edges (add_nodes_from g ns) = edges g"
    by (simp_all add: add_nodes_from_def)
qed

lemma add_edge_props:
  "set (nodes (add_edge g a b idx)) = insert a (insert b (set (nodes g)))"
  "distinct (nodes g) \<Longrightarrow> distinct (nodes (add_edge g a b idx))"
  "edges (add_edge g a b idx) = AList.update (sorted_tuple (a, b)) idx (edges g)"
  by (auto simp: add_edge_def Let_def nodes_add_node distinct_add_node edges_add_node)

lemma update_fresh: "k \<notin> fst ` set al \<Longrightarrow> AList.update k v al = al @ [(k, v)]"
  by (induction al) auto

lemma add_row_edge_props:
  "set (nodes (add_row_edge mc g (i, r))) =
     set (nodes g) \<union> (if edge_row mc r then {fst r, fst (snd r)} else {})"
  "distinct (nodes g) \<Longrightarrow> distinct (nodes (add_row_edge mc g (i, r)))"
  "edges (add_row_edge mc g (i, r)) =
     (if edge_row mc r then AList.update (sorted_tuple (row_pair r)) i (edges g) else edges g)"
proof -
  obtain a b d where r: "r = (a, b, d)" by (cases r)
  show "set (nodes (add_row_edge mc g (i, r))) =
     set (nodes g) \<union> (if edge_row mc r then {fst r, fst (snd r)} else {})"
    by (auto simp: r add_row_edge_def edge_row_def add_edge_props)
  show "distinct (nodes g) \<Longrightarrow> distinct (nodes (add_row_edge mc g (i, r)))"
    by (simp add: r add_row_edge_def add_edge_props)
  show "edges (add_row_edge mc g (i, r)) =
     (if edge_row mc r then AList.update (sorted_tuple (row_pair r)) i (edges g) else edges g)"
    by (simp add: r add_row_edge_def edge_row_def add_edge_props row_pair_def)
qed

lemma foldl_add_row_edge_nodes:
  "set (nodes (foldl (add_row_edge mc) g (enumerate n m))) =
     set (nodes g) \<union> (\<Union>r \<in> {r \<in> set m. edge_row mc r}. {fst r, fst (snd r)})"
  "distinct (nodes g) \<Longrightarrow> distinct (nodes (foldl (add_row_edge mc) g (enumerate n m)))"
proof -
  have "set (nodes (foldl (add_row_edge mc) g (enumerate n m))) =
     set (nodes g) \<union> (\<Union>r \<in> {r \<in> set m. edge_row mc r}. {fst r, fst (snd r)})
     \<and> (distinct (nodes g) \<longrightarrow> distinct (nodes (foldl (add_row_edge mc) g (enumerate n m))))"
  proof (induction m arbitrary: g n)
    case Nil
    show ?case by simp
  next
    case (Cons r m)
    show ?case
      using Cons.IH[of "add_row_edge mc g (n, r)" "Suc n"]
      by (auto simp: add_row_edge_props(1,2))
  qed
  then show "set (nodes (foldl (add_row_edge mc) g (enumerate n m))) =
     set (nodes g) \<union> (\<Union>r \<in> {r \<in> set m. edge_row mc r}. {fst r, fst (snd r)})"
    "distinct (nodes g) \<Longrightarrow> distinct (nodes (foldl (add_row_edge mc) g (enumerate n m)))"
    by simp_all
qed

lemma foldl_add_row_edge_keys:
  "fst ` set (edges (foldl (add_row_edge mc) g (enumerate n m))) =
     fst ` set (edges g) \<union> (\<lambda>r. sorted_tuple (row_pair r)) ` {r \<in> set m. edge_row mc r}"
proof (induction m arbitrary: g n)
  case Nil
  show ?case by simp
next
  case (Cons r m)
  have "fst ` set (edges (add_row_edge mc g (n, r))) =
        fst ` set (edges g) \<union> (if edge_row mc r then {sorted_tuple (row_pair r)} else {})"
    by (simp add: add_row_edge_props(3) dom_update[symmetric] del: dom_update)
       (simp add: dom_update)
  then show ?case
    using Cons.IH[of "add_row_edge mc g (n, r)" "Suc n"] by auto
qed



lemma foldl_add_row_edge_edges:
  assumes "distinct (map (\<lambda>r. sorted_tuple (row_pair r)) m)"
    and "fst ` set (edges g) \<inter> (\<lambda>r. sorted_tuple (row_pair r)) ` set m = {}"
  shows "edges (foldl (add_row_edge mc) g (enumerate n m)) =
     edges g @ map (\<lambda>p. (sorted_tuple (row_pair (snd p)), fst p))
                (filter (\<lambda>p. edge_row mc (snd p)) (enumerate n m))"
  using assms
proof (induction m arbitrary: g n)
  case Nil
  show ?case by simp
next
  case (Cons r m)
  let ?k = "sorted_tuple (row_pair r)"
  let ?g = "add_row_edge mc g (n, r)"
  have "?k \<in> (\<lambda>r. sorted_tuple (row_pair r)) ` set (r # m)" by simp
  with Cons.prems(2) have fresh: "?k \<notin> fst ` set (edges g)" by (metis IntI empty_iff)
  have eg: "edges ?g = (if edge_row mc r then edges g @ [(?k, n)] else edges g)"
    by (simp add: add_row_edge_props(3) update_fresh[OF fresh])
  from Cons.prems have d: "distinct (map (\<lambda>r. sorted_tuple (row_pair r)) m)"
    and nk: "?k \<notin> (\<lambda>r. sorted_tuple (row_pair r)) ` set m" by simp_all
  have sub: "k = ?k \<or> k \<in> fst ` set (edges g)" if "k \<in> fst ` set (edges ?g)" for k
    using that by (cases "edge_row mc r") (auto simp: eg)
  have disj: "fst ` set (edges ?g) \<inter> (\<lambda>r. sorted_tuple (row_pair r)) ` set m = {}"
  proof (rule Int_emptyI)
    fix k assume k1: "k \<in> fst ` set (edges ?g)" and k2: "k \<in> (\<lambda>r. sorted_tuple (row_pair r)) ` set m"
    from sub[OF k1] show False
    proof
      assume "k = ?k"
      with k2 nk show False by simp
    next
      assume k3: "k \<in> fst ` set (edges g)"
      from k2 have "k \<in> (\<lambda>r. sorted_tuple (row_pair r)) ` set (r # m)" by simp
      with k3 have "k \<in> fst ` set (edges g) \<inter> (\<lambda>r. sorted_tuple (row_pair r)) ` set (r # m)"
        by (rule IntI)
      with Cons.prems(2) show False by simp
    qed
  qed
  have "edges (foldl (add_row_edge mc) g (enumerate n (r # m))) =
        edges (foldl (add_row_edge mc) ?g (enumerate (Suc n) m))" by simp
  also have "\<dots> = edges ?g @ map (\<lambda>p. (sorted_tuple (row_pair (snd p)), fst p))
                (filter (\<lambda>p. edge_row mc (snd p)) (enumerate (Suc n) m))"
    by (rule Cons.IH[OF d disj])
  finally show ?case by (simp add: eg)
qed

lemma cutoff_graph_nodes:
  "set (nodes (cutoff_graph mc bgcs m)) =
     set bgcs \<union> (\<Union>r \<in> {r \<in> set m. edge_row mc r}. {fst r, fst (snd r)})"
  "distinct (nodes (cutoff_graph mc bgcs m))"
proof -
  have d0: "distinct (nodes (add_nodes_from empty_graph bgcs))"
    by (rule add_nodes_from_props(2)) (simp add: empty_graph_def)
  show "set (nodes (cutoff_graph mc bgcs m)) =
     set bgcs \<union> (\<Union>r \<in> {r \<in> set m. edge_row mc r}. {fst r, fst (snd r)})"
    unfolding cutoff_graph_def foldl_add_row_edge_nodes(1) add_nodes_from_props(1)
    by (simp add: empty_graph_def)
  show "distinct (nodes (cutoff_graph mc bgcs m))"
    unfolding cutoff_graph_def by (rule foldl_add_row_edge_nodes(2)[OF d0])
qed

lemma cutoff_graph_keys:
  "fst ` set (edges (cutoff_graph mc bgcs m)) =
     (\<lambda>r. sorted_tuple (row_pair r)) ` {r \<in> set m. edge_row mc r}"
  unfolding cutoff_graph_def foldl_add_row_edge_keys add_nodes_from_props(3)
  by (simp add: empty_graph_def)

lemma cutoff_graph_edges:
  assumes "distinct (map (\<lambda>r. sorted_tuple (row_pair r)) m)"
  shows "edges (cutoff_graph mc bgcs m) =
     map (\<lambda>p. (sorted_tuple (row_pair (snd p)), fst p))
       (filter (\<lambda>p. edge_row mc (snd p)) (enumerate 0 m))"
proof -
  have e0: "edges (add_nodes_from empty_graph bgcs) = []"
    by (simp add: add_nodes_from_props(3) empty_graph_def)
  have "edges (cutoff_graph mc bgcs m) =
     edges (add_nodes_from empty_graph bgcs) @ map (\<lambda>p. (sorted_tuple (row_pair (snd p)), fst p))
       (filter (\<lambda>p. edge_row mc (snd p)) (enumerate 0 m))"
    unfolding cutoff_graph_def
    by (rule foldl_add_row_edge_edges[OF assms]) (simp add: e0)
  then show ?thesis by (simp add: e0)
qed

lemma sorted_tuple_ends:
  "fst (sorted_tuple p) \<in> D \<and> snd (sorted_tuple p) \<in> D \<longleftrightarrow> fst p \<in> D \<and> snd p \<in> D"
  by (auto simp: sorted_tuple_def min_def max_def)

lemma subgraph_edge_indices_cutoff_graph:
  assumes "distinct (map (\<lambda>r. sorted_tuple (row_pair r)) m)"
  shows "subgraph_edge_indices (cutoff_graph mc bgcs m) ns =
     map fst (filter (\<lambda>p. inner_edge_row mc (set ns) (snd p)) (enumerate 0 m))"
proof -
  have "subgraph_edge_indices (cutoff_graph mc bgcs m) ns =
     map fst (filter (\<lambda>p. fst (sorted_tuple (row_pair (snd p))) \<in> set ns
                           \<and> snd (sorted_tuple (row_pair (snd p))) \<in> set ns)
              (filter (\<lambda>p. edge_row mc (snd p)) (enumerate 0 m)))"
    unfolding subgraph_edge_indices_def cutoff_graph_edges[OF assms]
    by (simp add: filter_map comp_def)
  also have "\<dots> = map fst (filter (\<lambda>p. inner_edge_row mc (set ns) (snd p)) (enumerate 0 m))"
  proof -
    have "\<And>p::nat \<times> 'a row. (edge_row mc (snd p) \<and> fst (sorted_tuple (row_pair (snd p))) \<in> set ns
                           \<and> snd (sorted_tuple (row_pair (snd p))) \<in> set ns)
             = inner_edge_row mc (set ns) (snd p)"
      unfolding sorted_tuple_ends by (simp add: inner_edge_row_def row_pair_def)
    then show ?thesis by (simp add: conj_commute)
  qed
  finally show ?thesis .
qed

lemma prune_matrix_rows:
  assumes "distinct (map (\<lambda>r. sorted_tuple (row_pair r)) m)"
  shows "del_each m (sorted_reverse (subgraph_edge_indices (cutoff_graph mc bgcs m) ns)) =
     Inr (filter (\<lambda>r. \<not> inner_edge_row mc (set ns) r) m)"
proof -
  let ?D = "map fst (filter (\<lambda>p. inner_edge_row mc (set ns) (snd p)) (enumerate 0 m))"
  have "sorted_reverse ?D = rev ?D"
    by (rule sorted_reverse_sorted) (rule sorted_map_fst_filter_enumerate)
  moreover have "del_each m (rev ?D) =
     Inr (map snd (filter (\<lambda>p. \<not> inner_edge_row mc (set ns) (snd p)) (enumerate 0 m)))"
    by (rule del_each_enumerate[where P = "\<lambda>i x. inner_edge_row mc (set ns) x"])
  ultimately show ?thesis
    unfolding subgraph_edge_indices_cutoff_graph[OF assms]
    by (simp add: map_snd_filter_enumerate[where Q = "\<lambda>r. \<not> inner_edge_row mc (set ns) r"])
qed



lemma sym_edge_rel: "sym (edge_rel g)"
proof (rule symI)
  fix a b assume "(a, b) \<in> edge_rel g"
  then have "(a, b) \<in> fst ` set (edges g) \<or> (b, a) \<in> fst ` set (edges g)"
    by (force simp: edge_rel_def)
  then show "(b, a) \<in> edge_rel g"
    by (force simp: edge_rel_def)
qed

lemma connected_nodes_rtrancl: "connected_nodes g u v \<longleftrightarrow> (u, v) \<in> (edge_rel g)\<^sup>*"
  by (auto simp: connected_nodes_def rtrancl_eq_or_trancl)

lemma connected_nodes_refl: "connected_nodes g v v"
  by (simp add: connected_nodes_def)

lemma connected_nodes_sym: "connected_nodes g u v \<Longrightarrow> connected_nodes g v u"
  unfolding connected_nodes_rtrancl
  using sym_edge_rel[of g] by (meson sym_rtrancl symD)

lemma connected_nodes_trans:
  "connected_nodes g u v \<Longrightarrow> connected_nodes g v w \<Longrightarrow> connected_nodes g u w"
  unfolding connected_nodes_rtrancl by (rule rtrancl_trans)

lemma component_eq:
  assumes "connected_nodes g u v"
  shows "component g u = component g v"
proof -
  have "connected_nodes g u w \<longleftrightarrow> connected_nodes g v w" for w
    using assms connected_nodes_trans connected_nodes_sym by blast
  then have "connected_nodes g u = connected_nodes g v" by (rule ext)
  then show ?thesis by (simp add: component_def)
qed

lemma in_component: "x \<in> set (component g v) \<longleftrightarrow> x \<in> set (nodes g) \<and> connected_nodes g v x"
  by (auto simp: component_def)

lemma distinct_component: "distinct (nodes g) \<Longrightarrow> distinct (component g v)"
  by (simp add: component_def)

lemma all_reference_test:
  assumes "distinct c"
  shows "card (set c \<inter> M) = length c \<longleftrightarrow> set c \<subseteq> M"
proof
  assume "set c \<subseteq> M"
  then have "set c \<inter> M = set c" by blast
  with assms show "card (set c \<inter> M) = length c" by (simp add: distinct_card)
next
  assume e: "card (set c \<inter> M) = length c"
  have "card (set c) = length c" using assms by (rule distinct_card)
  with e have "card (set c \<inter> M) = card (set c)" by simp
  moreover have "set c \<inter> M \<subseteq> set c" by blast
  ultimately have "set c \<inter> M = set c" by (simp add: card_subset_eq)
  then show "set c \<subseteq> M" by blast
qed

lemma mibig_set_del_filter:
  assumes "distinct (nodes g)"
  shows "mibig_set_del M g = concat (filter (\<lambda>c. set c \<subseteq> M) (connected_components g))"
proof -
  have t: "(card (set c \<inter> M) = length c) = (set c \<subseteq> M)" if "c \<in> set (connected_components g)" for c
  proof -
    from that obtain v where "c = component g v" by (auto simp: connected_components_def)
    then have "distinct c" using assms by (simp add: distinct_component)
    then show ?thesis by (rule all_reference_test)
  qed
  have "concat (map (\<lambda>c. if card (set c \<inter> M) = length c then c else []) cs) =
        concat (filter (\<lambda>c. set c \<subseteq> M) cs)"
    if "\<And>c. c \<in> set cs \<Longrightarrow> (card (set c \<inter> M) = length c) = (set c \<subseteq> M)" for cs
    using that by (induction cs) simp_all
  from this[of "connected_components g", OF t] show ?thesis
    by (simp add: mibig_set_del_def)
qed

lemma set_mibig_set_del:
  assumes "distinct (nodes g)"
  shows "set (mibig_set_del M g) = {v \<in> set (nodes g). set (component g v) \<subseteq> M}"
proof (rule set_eqI)
  fix x
  show "x \<in> set (mibig_set_del M g) \<longleftrightarrow> x \<in> {v \<in> set (nodes g). set (component g v) \<subseteq> M}"
  proof
    assume "x \<in> set (mibig_set_del M g)"
    then obtain c where c: "c \<in> set (connected_components g)" "set c \<subseteq> M" "x \<in> set c"
      unfolding mibig_set_del_filter[OF assms] by auto
    from c(1) obtain v where v: "c = component g v" by (auto simp: connected_components_def)
    from c(3) v have xn: "x \<in> set (nodes g)" and cx: "connected_nodes g v x"
      by (simp_all add: in_component)
    from component_eq[OF cx] v have "component g x = c" by simp
    with c(2) xn show "x \<in> {v \<in> set (nodes g). set (component g v) \<subseteq> M}" by simp
  next
    assume "x \<in> {v \<in> set (nodes g). set (component g v) \<subseteq> M}"
    then have xn: "x \<in> set (nodes g)" and s: "set (component g x) \<subseteq> M" by simp_all
    have "component g x \<in> set (connected_components g)"
      using xn by (simp add: connected_components_def)
    moreover have "x \<in> set (component g x)"
      using xn by (simp add: in_component connected_nodes_refl)
    ultimately show "x \<in> set (mibig_set_del M g)"
      unfolding mibig_set_del_filter[OF assms] using s by auto
  qed
qed

lemma distinct_mibig_set_del:
  assumes "distinct (nodes g)"
  shows "distinct (mibig_set_del M g)"
  unfolding mibig_set_del_filter[OF assms]
proof (rule distinct_concat)
  show "distinct (filter (\<lambda>c. set c \<subseteq> M) (connected_components g))"
    by (simp add: connected_components_def)
next
  fix ys assume "ys \<in> set (filter (\<lambda>c. set c \<subseteq> M) (connected_components g))"
  then obtain v where "ys = component g v" by (auto simp: connected_components_def)
  then show "distinct ys" using assms by (simp add: distinct_component)
next
  fix ys zs
  assume "ys \<in> set (filter (\<lambda>c. set c \<subseteq> M) (connected_components g))"
    "zs \<in> set (filter (\<lambda>c. set c \<subseteq> M) (connected_components g))" and ne: "ys \<noteq> zs"
  then obtain u v where u: "ys = component g u" and v: "zs = component g v"
    by (auto simp: connected_components_def)
  show "set ys \<inter> set zs = {}"
  proof (rule Int_emptyI)
    fix x assume "x \<in> set ys" "x \<in> set zs"
    then have "connected_nodes g u x" "connected_nodes g v x"
      by (simp_all add: u v in_component)
    then have "component g u = component g x" "component g v = component g x"
      by (simp_all add: component_eq)
    with u v ne show False by simp
  qed
qed



lemma bgc_to_class_idx_foldl_notin:
  "b \<notin> set xs \<Longrightarrow> foldl (\<lambda>m (idx, bgc). m(bgc \<mapsto> idx)) m0 (enumerate n xs) b = m0 b"
proof (induction xs arbitrary: m0 n)
  case Nil
  show ?case by simp
next
  case (Cons x xs)
  then have nb: "b \<noteq> x" and nin: "b \<notin> set xs" by auto
  have c: "foldl (\<lambda>m (idx, bgc). m(bgc \<mapsto> idx)) m0 (enumerate n (x # xs)) =
           foldl (\<lambda>m (idx, bgc). m(bgc \<mapsto> idx)) (m0(x \<mapsto> n)) (enumerate (Suc n) xs)"
    by (simp del: fun_upd_apply)
  have "foldl (\<lambda>m (idx, bgc). m(bgc \<mapsto> idx)) (m0(x \<mapsto> n)) (enumerate (Suc n) xs) b
        = (m0(x \<mapsto> n)) b"
    by (rule Cons.IH[OF nin])
  also have "\<dots> = m0 b" using nb by simp
  finally show ?case unfolding c .
qed

lemma bgc_to_class_idx_foldl:
  "distinct xs \<Longrightarrow> (i, b) \<in> set (enumerate n xs) \<Longrightarrow>
   foldl (\<lambda>m (idx, bgc). m(bgc \<mapsto> idx)) m0 (enumerate n xs) b = Some i"
proof (induction xs arbitrary: m0 n)
  case Nil
  then show ?case by simp
next
  case (Cons x xs)
  from Cons.prems(1) have nx: "x \<notin> set xs" and d: "distinct xs" by simp_all
  from Cons.prems(2) have "(i, b) = (n, x) \<or> (i, b) \<in> set (enumerate (Suc n) xs)" by simp
  then show ?case
  proof
    assume "(i, b) = (n, x)"
    then have e: "i = n" "b = x" by simp_all
    have "foldl (\<lambda>m (idx, bgc). m(bgc \<mapsto> idx)) (m0(x \<mapsto> n)) (enumerate (Suc n) xs) x
          = (m0(x \<mapsto> n)) x"
      by (rule bgc_to_class_idx_foldl_notin[OF nx])
    also have "\<dots> = Some n" by simp
    finally have a: "foldl (\<lambda>m (idx, bgc). m(bgc \<mapsto> idx)) (m0(x \<mapsto> n)) (enumerate (Suc n) xs) x
          = Some n" .
    have c: "foldl (\<lambda>m (idx, bgc). m(bgc \<mapsto> idx)) m0 (enumerate n (x # xs)) =
             foldl (\<lambda>m (idx, bgc). m(bgc \<mapsto> idx)) (m0(x \<mapsto> n)) (enumerate (Suc n) xs)"
      by (simp del: fun_upd_apply)
    show ?thesis unfolding e c by (rule a)
  next
    assume "(i, b) \<in> set (enumerate (Suc n) xs)"
    from Cons.IH[OF d this, of "m0(x \<mapsto> n)"]
    have a: "foldl (\<lambda>m (idx, bgc). m(bgc \<mapsto> idx)) (m0(x \<mapsto> n)) (enumerate (Suc n) xs) b
          = Some i" .
    have c: "foldl (\<lambda>m (idx, bgc). m(bgc \<mapsto> idx)) m0 (enumerate n (x # xs)) =
             foldl (\<lambda>m (idx, bgc). m(bgc \<mapsto> idx)) (m0(x \<mapsto> n)) (enumerate (Suc n) xs)"
      by (simp del: fun_upd_apply)
    show ?thesis unfolding c by (rule a)
  qed
qed

lemma bgc_to_class_idx_Some:
  "distinct bgcs \<Longrightarrow> (i, b) \<in> set (enumerate 0 bgcs) \<Longrightarrow> bgc_to_class_idx bgcs b = Some i"
  unfolding bgc_to_class_idx_def by (rule bgc_to_class_idx_foldl)

lemma del_members_del_each:
  "(\<And>b. b \<in> set L \<Longrightarrow> tbl b \<noteq> None) \<Longrightarrow>
   del_members tbl bgcs L = del_each bgcs (map (\<lambda>b. the (tbl b)) L)"
proof (induction L arbitrary: bgcs)
  case Nil
  show ?case by simp
next
  case (Cons b L)
  from Cons.prems[of b] obtain i where i: "tbl b = Some i" by auto
  have IH: "del_members tbl bs L = del_each bs (map (\<lambda>b. the (tbl b)) L)" for bs
    by (rule Cons.IH) (rule Cons.prems, simp)
  show ?case by (simp add: i IH split: sum.splits)
qed

lemma positions_of_filter:
  assumes "distinct bgcs"
  shows "map (\<lambda>b. the (bgc_to_class_idx bgcs b)) (filter Q bgcs) =
         map fst (filter (\<lambda>p. Q (snd p)) (enumerate 0 bgcs))"
proof -
  have "filter Q bgcs = map snd (filter (\<lambda>p. Q (snd p)) (enumerate 0 bgcs))"
    by (rule map_snd_filter_enumerate[symmetric])
  then have "map (\<lambda>b. the (bgc_to_class_idx bgcs b)) (filter Q bgcs) =
      map (\<lambda>p. the (bgc_to_class_idx bgcs (snd p))) (filter (\<lambda>p. Q (snd p)) (enumerate 0 bgcs))"
    by (simp add: comp_def)
  also have "\<dots> = map fst (filter (\<lambda>p. Q (snd p)) (enumerate 0 bgcs))"
  proof (rule map_cong[OF refl])
    fix p assume "p \<in> set (filter (\<lambda>p. Q (snd p)) (enumerate 0 bgcs))"
    then have "(fst p, snd p) \<in> set (enumerate 0 bgcs)" by simp
    from bgc_to_class_idx_Some[OF assms this]
    show "the (bgc_to_class_idx bgcs (snd p)) = fst p" by simp
  qed
  finally show ?thesis .
qed

lemma sorted_reverse_subset:
  assumes "sorted bgcs" "distinct bgcs" "distinct L" "set L \<subseteq> set bgcs"
  shows "sorted_reverse L = rev (filter (\<lambda>b. b \<in> set L) bgcs)"
proof -
  have "sort L = filter (\<lambda>b. b \<in> set L) bgcs"
  proof (rule sorted_distinct_set_unique)
    show "sorted (sort L)" by simp
    show "distinct (sort L)" using assms(3) by simp
    show "sorted (filter (\<lambda>b. b \<in> set L) bgcs)" using assms(1) by (rule sorted_wrt_filter)
    show "distinct (filter (\<lambda>b. b \<in> set L) bgcs)" using assms(2) by simp
    show "set (sort L) = set (filter (\<lambda>b. b \<in> set L) bgcs)" using assms(4) by auto
  qed
  then show ?thesis by (simp add: sorted_reverse_def)
qed

lemma del_marked_members:
  assumes "sorted bgcs" "distinct bgcs" "distinct L" "set L \<subseteq> set bgcs"
  shows "del_members (bgc_to_class_idx bgcs) bgcs (sorted_reverse L) =
         Inr (filter (\<lambda>b. b \<notin> set L) bgcs)"
proof -
  let ?F = "filter (\<lambda>b. b \<in> set L) bgcs"
  have some: "bgc_to_class_idx bgcs b \<noteq> None" if "b \<in> set (rev ?F)" for b
  proof -
    from that have "b \<in> set bgcs" by simp
    then obtain i where "i < length bgcs" "bgcs ! i = b" by (auto simp: in_set_conv_nth)
    then have "(i, b) \<in> set (enumerate 0 bgcs)" by (simp add: in_set_enumerate_eq)
    from bgc_to_class_idx_Some[OF assms(2) this] show ?thesis by simp
  qed
  have "del_members (bgc_to_class_idx bgcs) bgcs (sorted_reverse L) =
        del_members (bgc_to_class_idx bgcs) bgcs (rev ?F)"
    by (simp only: sorted_reverse_subset[OF assms])
  also have "\<dots> = del_each bgcs (map (\<lambda>b. the (bgc_to_class_idx bgcs b)) (rev ?F))"
    by (rule del_members_del_each) (rule some)
  also have "\<dots> = del_each bgcs (rev (map fst (filter (\<lambda>p. snd p \<in> set L) (enumerate 0 bgcs))))"
  proof -
    have "map (\<lambda>b. the (bgc_to_class_idx bgcs b)) (rev ?F) =
          rev (map (\<lambda>b. the (bgc_to_class_idx bgcs b)) ?F)" by (simp add: rev_map)
    also have "\<dots> = rev (map fst (filter (\<lambda>p. snd p \<in> set L) (enumerate 0 bgcs)))"
      by (simp only: positions_of_filter[OF assms(2), where Q = "\<lambda>b. b \<in> set L"])
    finally show ?thesis by simp
  qed
  also have "\<dots> = Inr (map snd (filter (\<lambda>p. \<not> snd p \<in> set L) (enumerate 0 bgcs)))"
    by (rule del_each_enumerate[where P = "\<lambda>i x. x \<in> set L"])
  also have "\<dots> = Inr (filter (\<lambda>b. b \<notin> set L) bgcs)"
    by (simp only: map_snd_filter_enumerate[where Q = "\<lambda>b. b \<notin> set L"])
  finally show ?thesis .
qed



lemma sorted_tuple_cases: "sorted_tuple p = p \<or> sorted_tuple p = (snd p, fst p)"
  by (cases p) (auto simp: sorted_tuple_def min_def max_def)

lemma sorted_tuple_idem: "sorted_tuple (sorted_tuple p) = sorted_tuple p"
  by (simp add: sorted_tuple_def)

lemma edge_rel_cutoff_graph:
  "(a, b) \<in> edge_rel (cutoff_graph mc bgcs m) \<longleftrightarrow>
   (\<exists>r \<in> set m. edge_row mc r \<and> (row_pair r = (a, b) \<or> row_pair r = (b, a)))"
proof -
  let ?N = "cutoff_graph mc bgcs m"
  have keys: "k \<in> fst ` set (edges ?N) \<longleftrightarrow> (\<exists>r \<in> set m. edge_row mc r \<and> k = sorted_tuple (row_pair r))"
    for k
    unfolding cutoff_graph_keys by blast
  have rel: "(a, b) \<in> edge_rel ?N \<longleftrightarrow> (a, b) \<in> fst ` set (edges ?N) \<or> (b, a) \<in> fst ` set (edges ?N)"
    by (force simp: edge_rel_def)
  show ?thesis
  proof
    assume "(a, b) \<in> edge_rel ?N"
    with rel keys obtain r where r: "r \<in> set m" "edge_row mc r"
      "(a, b) = sorted_tuple (row_pair r) \<or> (b, a) = sorted_tuple (row_pair r)"
      by blast
    from sorted_tuple_cases[of "row_pair r"] r(3)
    have "row_pair r = (a, b) \<or> row_pair r = (b, a)"
      by (cases "row_pair r") auto
    with r show "\<exists>r \<in> set m. edge_row mc r \<and> (row_pair r = (a, b) \<or> row_pair r = (b, a))"
      by blast
  next
    assume "\<exists>r \<in> set m. edge_row mc r \<and> (row_pair r = (a, b) \<or> row_pair r = (b, a))"
    then obtain r where r: "r \<in> set m" "edge_row mc r" "row_pair r = (a, b) \<or> row_pair r = (b, a)"
      by blast
    from sorted_tuple_cases[of "row_pair r"] r(3)
    have "sorted_tuple (row_pair r) = (a, b) \<or> sorted_tuple (row_pair r) = (b, a)"
      by auto
    with r(1,2) keys have "(a, b) \<in> fst ` set (edges ?N) \<or> (b, a) \<in> fst ` set (edges ?N)"
      by metis
    with rel show "(a, b) \<in> edge_rel ?N" by simp
  qed
qed

lemma cutoff_graph_nodes_closed:
  assumes "\<forall>r \<in> set m. fst r \<in> set bgcs \<and> fst (snd r) \<in> set bgcs"
  shows "set (nodes (cutoff_graph mc bgcs m)) = set bgcs"
proof -
  have "(\<Union>r \<in> {r \<in> set m. edge_row mc r}. {fst r, fst (snd r)}) \<subseteq> set bgcs"
    using assms by auto
  then show ?thesis unfolding cutoff_graph_nodes(1) by blast
qed

lemma mibig_prune_eq:
  assumes "sorted bgcs" "distinct bgcs"
    and "distinct (map (\<lambda>r. sorted_tuple (row_pair r)) m)"
    and "\<forall>r \<in> set m. fst r \<in> set bgcs \<and> fst (snd r) \<in> set bgcs"
  shows "mibig_prune M mc bgcs m =
     Inr (filter (\<lambda>r. \<not> inner_edge_row mc {v \<in> set bgcs. set (component (cutoff_graph mc bgcs m) v) \<subseteq> M} r) m,
          filter (\<lambda>b. \<not> set (component (cutoff_graph mc bgcs m) b) \<subseteq> M) bgcs)"
proof -
  let ?N = "cutoff_graph mc bgcs m"
  let ?DEL = "mibig_set_del M ?N"
  have dn: "distinct (nodes ?N)" by (rule cutoff_graph_nodes(2))
  have nodes: "set (nodes ?N) = set bgcs" by (rule cutoff_graph_nodes_closed[OF assms(4)])
  have sD: "set ?DEL = {v \<in> set bgcs. set (component ?N v) \<subseteq> M}"
    unfolding set_mibig_set_del[OF dn] nodes ..
  have dD: "distinct ?DEL" by (rule distinct_mibig_set_del[OF dn])
  have subD: "set ?DEL \<subseteq> set bgcs" unfolding sD by blast
  have rows: "del_each m (sorted_reverse (subgraph_edge_indices ?N ?DEL)) =
      Inr (filter (\<lambda>r. \<not> inner_edge_row mc (set ?DEL) r) m)"
    by (rule prune_matrix_rows[OF assms(3)])
  have mem: "del_members (bgc_to_class_idx bgcs) bgcs (sorted_reverse ?DEL) =
      Inr (filter (\<lambda>b. b \<notin> set ?DEL) bgcs)"
    by (rule del_marked_members[OF assms(1,2) dD subD])
  have f: "filter (\<lambda>b. b \<notin> set ?DEL) bgcs = filter (\<lambda>b. \<not> set (component ?N b) \<subseteq> M) bgcs"
    by (rule filter_cong[OF refl]) (simp add: sD)
  show ?thesis
    unfolding mibig_prune_def Let_def rows mem f
    by (simp add: sD)
qed



lemma all_vs_all_rows:
  fixes distance_of :: "nat \<Rightarrow> nat \<Rightarrow> 't \<Rightarrow> 'd"
  defines "m \<equiv> \<lambda>tag bgcs. generate_network distance_of
                 (cluster_pairs tag (py_set (map sorted_tuple (combinations2 bgcs))))"
  shows "distinct (map (\<lambda>r. sorted_tuple (row_pair r)) (m tag bgcs))"
    and "\<forall>r \<in> set (m tag bgcs). fst r \<in> set bgcs \<and> fst (snd r) \<in> set bgcs"
proof -
  let ?P = "py_set (map sorted_tuple (combinations2 bgcs))"
  have rp: "map row_pair (m tag bgcs) = ?P"
    unfolding m_def by (rule row_pairs_generate_network)
  have fixd: "sorted_tuple p = p" if "p \<in> set ?P" for p
  proof -
    from that obtain p' where "p = sorted_tuple p'" by (auto simp: py_set_def)
    then show ?thesis by (simp add: sorted_tuple_idem)
  qed
  have "map (\<lambda>r. sorted_tuple (row_pair r)) (m tag bgcs) = map sorted_tuple (map row_pair (m tag bgcs))"
    by (simp add: comp_def)
  also have "\<dots> = map sorted_tuple ?P" by (simp only: rp)
  also have "\<dots> = map (\<lambda>p. p) ?P" by (rule map_cong[OF refl]) (rule fixd)
  finally have k: "map (\<lambda>r. sorted_tuple (row_pair r)) (m tag bgcs) = ?P" by simp
  show "distinct (map (\<lambda>r. sorted_tuple (row_pair r)) (m tag bgcs))"
    unfolding k by (simp add: py_set_def)
  show "\<forall>r \<in> set (m tag bgcs). fst r \<in> set bgcs \<and> fst (snd r) \<in> set bgcs"
  proof
    fix r assume "r \<in> set (m tag bgcs)"
    then have "row_pair r \<in> set (map row_pair (m tag bgcs))" by simp
    then have "row_pair r \<in> set ?P" by (simp only: rp)
    then obtain p where p: "p \<in> set (combinations2 bgcs)" "row_pair r = sorted_tuple p"
      by (auto simp: py_set_def)
    from p(1) set_combinations2[of bgcs] have "fst p \<in> set bgcs \<and> snd p \<in> set bgcs" by auto
    then have "fst (sorted_tuple p) \<in> set bgcs \<and> snd (sorted_tuple p) \<in> set bgcs"
      by (simp add: sorted_tuple_ends)
    moreover from p(2) have "fst (sorted_tuple p) = fst r" "snd (sorted_tuple p) = fst (snd r)"
      by (simp_all add: row_pair_def prod_eq_iff)
    ultimately show "fst r \<in> set bgcs \<and> fst (snd r) \<in> set bgcs"
      by simp
  qed
qed

text \<open>
  After the pruning every component of the graph built from the remaining members and the
  remaining rows holds a cluster outside the reference set.
\<close>

lemma pruned_components_mixed:
  fixes mc :: "'d::linorder" and M :: "nat set" and bgcs :: "nat list" and m :: "'d row list"
  assumes closed: "\<forall>r \<in> set m. fst r \<in> set bgcs \<and> fst (snd r) \<in> set bgcs"
  defines "N \<equiv> cutoff_graph mc bgcs m"
  defines "D \<equiv> {v \<in> set bgcs. set (component N v) \<subseteq> M}"
  defines "m' \<equiv> filter (\<lambda>r. \<not> inner_edge_row mc D r) m"
  defines "bgcs' \<equiv> filter (\<lambda>b. \<not> set (component N b) \<subseteq> M) bgcs"
  shows "\<forall>c \<in> set (connected_components (cutoff_graph mc bgcs' m')). \<not> set c \<subseteq> M"
proof
  let ?N' = "cutoff_graph mc bgcs' m'"
  fix c assume "c \<in> set (connected_components ?N')"
  then obtain v where vn: "v \<in> set (nodes ?N')" and c: "c = component ?N' v"
    by (auto simp: connected_components_def)
  have nodesN: "set (nodes N) = set bgcs"
    unfolding N_def by (rule cutoff_graph_nodes_closed[OF closed])
  have Dclosed: "y \<notin> D" if "x \<notin> D" "x \<in> set bgcs" "connected_nodes N x y" for x y
  proof
    assume "y \<in> D"
    then have "set (component N y) \<subseteq> M" by (simp add: D_def)
    with component_eq[OF that(3)] have "set (component N x) \<subseteq> M" by simp
    with that(1,2) show False by (simp add: D_def)
  qed
  have bgcs'_eq: "set bgcs' = set bgcs - D"
    by (auto simp: bgcs'_def D_def)
  have endsN: "a \<in> set bgcs \<and> b \<in> set bgcs" if "(a, b) \<in> edge_rel N" for a b
  proof -
    from that obtain r where "r \<in> set m" "row_pair r = (a, b) \<or> row_pair r = (b, a)"
      unfolding N_def edge_rel_cutoff_graph by blast
    with closed show ?thesis by (auto simp: row_pair_def)
  qed
  have step: "(a, b) \<in> edge_rel ?N'" if "(a, b) \<in> edge_rel N" "a \<notin> D" for a b
  proof -
    from that(1) obtain r where r: "r \<in> set m" "edge_row mc r"
      "row_pair r = (a, b) \<or> row_pair r = (b, a)"
      unfolding N_def edge_rel_cutoff_graph by blast
    from r(3) that(2) have "\<not> inner_edge_row mc D r"
      by (auto simp: inner_edge_row_def row_pair_def)
    with r(1) have "r \<in> set m'" by (simp add: m'_def)
    with r(2,3) show ?thesis unfolding edge_rel_cutoff_graph by blast
  qed
  have nodesN': "set (nodes ?N') \<subseteq> set bgcs - D"
  proof
    fix x assume "x \<in> set (nodes ?N')"
    then have "x \<in> set bgcs' \<or> (\<exists>r \<in> set m'. edge_row mc r \<and> (x = fst r \<or> x = fst (snd r)))"
      unfolding cutoff_graph_nodes(1) by auto
    then show "x \<in> set bgcs - D"
    proof
      assume "x \<in> set bgcs'"
      then show ?thesis by (simp add: bgcs'_eq)
    next
      assume "\<exists>r \<in> set m'. edge_row mc r \<and> (x = fst r \<or> x = fst (snd r))"
      then obtain r where r: "r \<in> set m" "\<not> inner_edge_row mc D r" "edge_row mc r"
        "x = fst r \<or> x = fst (snd r)" by (auto simp: m'_def)
      let ?a = "fst r" and ?b = "fst (snd r)"
      from r(1) closed have ab: "?a \<in> set bgcs" "?b \<in> set bgcs" by auto
      have e: "(?a, ?b) \<in> edge_rel N"
        unfolding N_def edge_rel_cutoff_graph using r(1,3) by (auto simp: row_pair_def)
      then have cab: "connected_nodes N ?a ?b" by (auto simp: connected_nodes_rtrancl)
      from r(2,3) have "?a \<notin> D \<or> ?b \<notin> D" by (simp add: inner_edge_row_def)
      then have "?a \<notin> D \<and> ?b \<notin> D"
        using Dclosed[OF _ ab(1) cab] Dclosed[OF _ ab(2) connected_nodes_sym[OF cab]] by blast
      with r(4) ab show ?thesis by auto
    qed
  qed
  from vn nodesN' have vb: "v \<in> set bgcs" and vD: "v \<notin> D" by auto
  from vD vb have "\<not> set (component N v) \<subseteq> M" by (simp add: D_def)
  then obtain u where "u \<in> set (component N v)" and uM: "u \<notin> M" by blast
  then have u: "u \<in> set (nodes N)" "connected_nodes N v u" "u \<notin> M"
    by (simp_all add: in_component)
  from u(2) have "(v, u) \<in> (edge_rel N)\<^sup>*" by (simp add: connected_nodes_rtrancl)
  then have path: "(v, u) \<in> (edge_rel ?N')\<^sup>* \<and> connected_nodes N v u"
  proof (induction rule: rtrancl_induct)
    case base
    show ?case by (simp add: connected_nodes_refl)
  next
    case (step y z)
    from step.IH have cy: "connected_nodes N v y" and py: "(v, y) \<in> (edge_rel ?N')\<^sup>*" by simp_all
    from Dclosed[OF vD vb cy] have "y \<notin> D" .
    from \<open>(y, z) \<in> edge_rel N\<close> this have "(y, z) \<in> edge_rel ?N'" by (rule \<open>\<And>a b. (a, b) \<in> edge_rel N \<Longrightarrow> a \<notin> D \<Longrightarrow> (a, b) \<in> edge_rel ?N'\<close>)
    with py have "(v, z) \<in> (edge_rel ?N')\<^sup>*" by (rule rtrancl_into_rtrancl)
    moreover from \<open>(y, z) \<in> edge_rel N\<close> have "connected_nodes N y z"
      by (auto simp: connected_nodes_rtrancl)
    with cy have "connected_nodes N v z" by (rule connected_nodes_trans)
    ultimately show ?case by simp
  qed
  have "u \<notin> D" by (rule Dclosed[OF vD vb u(2)])
  moreover from u(1) nodesN have "u \<in> set bgcs" by simp
  ultimately have "u \<in> set bgcs'" by (simp add: bgcs'_eq)
  then have "u \<in> set (nodes ?N')" unfolding cutoff_graph_nodes(1) by simp
  moreover from path have "connected_nodes ?N' v u" by (simp add: connected_nodes_rtrancl)
  ultimately have "u \<in> set c" by (simp add: c in_component)
  with u(3) show "\<not> set c \<subseteq> M" by blast
qed
section \<open>Properties of the family-data conversion\<close>

lemma for_each_cong_set:
  "(\<And>x. x \<in> set xs \<Longrightarrow> f x = g x) \<Longrightarrow> for_each f xs = for_each g xs"
  by (induction xs) (simp_all split: sum.splits)

lemma inline_members_loop_eq:
  "inline_members_loop ii cn ms bs (nm, mb) = util_members_loop ii cn ms bs nm mb"
  by (induction bs arbitrary: nm mb) (auto split: sum.splits)

lemma inline_update_family_eq:
  "inline_update_family ii cn ms fam = util_update_family ii cn ms fam"
  by (simp add: inline_update_family_def util_update_family_def inline_members_loop_eq)

text \<open>
  C10.  On every input (networks per run, list of input cluster indices, cluster names,
  reference set) the function \<open>update_family_data\<close> of \<open>big_scape/util.py\<close> and the inline
  loop at the end of \<open>bigscape.py\<close> give the same result: the same updated records, or the
  same exception.
\<close>

theorem update_family_data_refines_inline:
  "update_family_data rd ii cn ms = inline_family_update rd ii cn ms"
proof -
  have fam: "inline_update_family ii cn ms = util_update_family ii cn ms"
    by (rule ext) (rule inline_update_family_eq)
  have net: "(\<lambda>net. case for_each (inline_update_family ii cn ms) (families net) of
                Inl e \<Rightarrow> Inl e | Inr fams \<Rightarrow> Inr (net\<lparr>families := fams\<rparr>))
             = util_update_network ii cn ms"
    by (rule ext) (simp add: util_update_network_def fam)
  show ?thesis
    unfolding update_family_data_def inline_family_update_def net ..
qed


lemma py_index_mem:
  "b \<in> set xs \<Longrightarrow> \<exists>i. py_index xs b = Inr i \<and> i < length xs \<and> xs ! i = b"
proof (induction xs)
  case Nil
  then show ?case by simp
next
  case (Cons y ys)
  show ?case
  proof (cases "y = b")
    case True
    then show ?thesis by simp
  next
    case False
    with Cons.prems have "b \<in> set ys" by simp
    from Cons.IH[OF this] obtain i where "py_index ys b = Inr i" "i < length ys" "ys ! i = b"
      by blast
    with False show ?thesis by simp
  qed
qed

lemma set_input_clusters_idx:
  "set (input_clusters_idx cn ms) = {i. i < length cn \<and> cn ! i \<notin> ms}"
proof -
  have "\<And>i. i \<in> set (input_clusters_idx cn ms) \<longleftrightarrow> i < length cn \<and> cn ! i \<notin> ms"
    unfolding input_clusters_idx_def
    by (force simp: in_set_enumerate_eq)
  then show ?thesis by blast
qed


lemma inline_members_loop_in:
  "b \<in> set ii \<Longrightarrow> py_index ii b = Inr i \<Longrightarrow>
   inline_members_loop ii cn ms (b # bs) (nm, mb) = inline_members_loop ii cn ms bs (nm @ [i], mb)"
  by simp

lemma inline_members_loop_out:
  "b \<notin> set ii \<Longrightarrow> b < length cn \<Longrightarrow>
   inline_members_loop ii cn ms (b # bs) (nm, mb) =
   inline_members_loop ii cn ms bs (nm, if cn ! b \<in> ms then mb @ [cn ! b] else mb)"
  by (simp add: py_getitem_def)



lemma py_index_projr:
  assumes "b \<in> set xs"
  shows "py_index xs b = Inr (projr (py_index xs b))"
    and "projr (py_index xs b) < length xs"
    and "xs ! projr (py_index xs b) = b"
proof -
  from py_index_mem[OF assms] obtain i where i: "py_index xs b = Inr i" "i < length xs" "xs ! i = b"
    by blast
  show "py_index xs b = Inr (projr (py_index xs b))" by (simp add: i(1))
  show "projr (py_index xs b) < length xs" by (simp add: i(1) i(2))
  show "xs ! projr (py_index xs b) = b" by (simp add: i(1) i(3))
qed

lemma inline_members_loop_result:
  assumes "\<forall>b \<in> set bs. b < length cn"
  shows "inline_members_loop (input_clusters_idx cn ms) cn ms bs (nm, mb) =
     Inr (nm @ map (\<lambda>b. projr (py_index (input_clusters_idx cn ms) b)) (filter (\<lambda>b. cn ! b \<notin> ms) bs),
          mb @ map ((!) cn) (filter (\<lambda>b. cn ! b \<in> ms) bs))"
  using assms
proof (induction bs arbitrary: nm mb)
  case Nil
  show ?case by simp
next
  case (Cons b bs)
  let ?ii = "input_clusters_idx cn ms"
  have blt: "b < length cn" and rest: "\<forall>b \<in> set bs. b < length cn" using Cons.prems by auto
  have mem: "b \<in> set ?ii \<longleftrightarrow> cn ! b \<notin> ms"
    using blt by (simp add: set_input_clusters_idx)
  note IH = Cons.IH[OF rest]
  show ?case
  proof (cases "b \<in> set ?ii")
    case True
    from True mem have nb: "cn ! b \<notin> ms" by simp
    have "inline_members_loop ?ii cn ms (b # bs) (nm, mb) =
          inline_members_loop ?ii cn ms bs (nm @ [projr (py_index ?ii b)], mb)"
      by (rule inline_members_loop_in[OF True py_index_projr(1)[OF True]])
    also have "\<dots> = Inr ((nm @ [projr (py_index ?ii b)]) @
                 map (\<lambda>b. projr (py_index ?ii b)) (filter (\<lambda>b. cn ! b \<notin> ms) bs),
               mb @ map ((!) cn) (filter (\<lambda>b. cn ! b \<in> ms) bs))"
      by (rule IH)
    finally show ?thesis using nb by (simp del: inline_members_loop.simps)
  next
    case False
    with mem have inm: "cn ! b \<in> ms" by simp
    have "inline_members_loop ?ii cn ms (b # bs) (nm, mb) =
          inline_members_loop ?ii cn ms bs (nm, if cn ! b \<in> ms then mb @ [cn ! b] else mb)"
      by (rule inline_members_loop_out[OF False blt])
    also have "\<dots> = inline_members_loop ?ii cn ms bs (nm, mb @ [cn ! b])"
      using inm by simp
    also have "\<dots> = Inr (nm @ map (\<lambda>b. projr (py_index ?ii b)) (filter (\<lambda>b. cn ! b \<notin> ms) bs),
               (mb @ [cn ! b]) @ map ((!) cn) (filter (\<lambda>b. cn ! b \<in> ms) bs))"
      by (rule IH)
    finally show ?thesis using inm by (simp del: inline_members_loop.simps)
  qed
qed


lemma for_each_map:
  "(\<And>x. x \<in> set xs \<Longrightarrow> f x = Inr (g x)) \<Longrightarrow> for_each f xs = Inr (map g xs)"
  by (induction xs) simp_all

lemma inline_update_family_result:
  assumes "\<forall>b \<in> set (members fam). b < length cn"
  shows "inline_update_family (input_clusters_idx cn ms) cn ms fam =
     Inr (fam\<lparr>mibig := map ((!) cn) (filter (\<lambda>b. cn ! b \<in> ms) (members fam)),
              members := map (\<lambda>b. projr (py_index (input_clusters_idx cn ms) b))
                           (filter (\<lambda>b. cn ! b \<notin> ms) (members fam))\<rparr>)"
  unfolding inline_update_family_def inline_members_loop_result[OF assms]
  by simp


text \<open>
  C6.  After the conversion every family's \<open>members\<close> holds input-only indices: the
  former members that are not reference clusters, in order, each replaced by its position
  in \<open>INPUT_CLUSTERS_IDX\<close> (the second conjunct: the new number is a position of that
  list, and the list holds the old global index there).  The former members whose name is
  in the reference set are listed by name, in order, under \<open>mibig\<close>.  The two lists come
  from complementary filters, so no member is in both.  The hypothesis says that every
  member is a position of \<open>CLUSTER_NAMES\<close>; beyond it the lookup raises IndexError.
\<close>

theorem family_members_input_only:
  assumes valid: "\<forall>(key, nets) \<in> set rd. \<forall>net \<in> set nets. \<forall>fam \<in> set (families net).
                    \<forall>b \<in> set (members fam). b < length cn"
  shows "inline_family_update rd (input_clusters_idx cn ms) cn ms =
     Inr (map (\<lambda>(key, nets). (key, map (\<lambda>net. net\<lparr>families :=
            map (\<lambda>fam. fam\<lparr>mibig := map ((!) cn) (filter (\<lambda>b. cn ! b \<in> ms) (members fam)),
                  members := map (\<lambda>b. projr (py_index (input_clusters_idx cn ms) b))
                               (filter (\<lambda>b. cn ! b \<notin> ms) (members fam))\<rparr>)
              (families net)\<rparr>) nets)) rd)
   \<and> (\<forall>b < length cn. cn ! b \<notin> ms \<longrightarrow>
          projr (py_index (input_clusters_idx cn ms) b) < length (input_clusters_idx cn ms)
        \<and> input_clusters_idx cn ms ! projr (py_index (input_clusters_idx cn ms) b) = b)"
proof (rule conjI)
  let ?ii = "input_clusters_idx cn ms"
  let ?g = "\<lambda>fam. fam\<lparr>mibig := map ((!) cn) (filter (\<lambda>b. cn ! b \<in> ms) (members fam)),
                  members := map (\<lambda>b. projr (py_index ?ii b))
                               (filter (\<lambda>b. cn ! b \<notin> ms) (members fam))\<rparr>"
  let ?n = "\<lambda>net. net\<lparr>families := map ?g (families net)\<rparr>"
  let ?fn = "\<lambda>net. case for_each (inline_update_family ?ii cn ms) (families net) of
                    Inl e \<Rightarrow> Inl e | Inr fams \<Rightarrow> Inr (net\<lparr>families := fams\<rparr>)"
  have valid': "b < length cn"
    if "(key, nets) \<in> set rd" "net \<in> set nets" "fam \<in> set (families net)" "b \<in> set (members fam)"
    for key nets net fam b
  proof -
    from valid that(1) have "\<forall>net \<in> set nets. \<forall>fam \<in> set (families net).
                    \<forall>b \<in> set (members fam). b < length cn"
      by (simp add: Ball_def)
    with that(2,3,4) show ?thesis by simp
  qed
  have net: "?fn net = Inr (?n net)" if "(key, nets) \<in> set rd" "net \<in> set nets" for net nets key
  proof -
    have "for_each (inline_update_family ?ii cn ms) (families net) = Inr (map ?g (families net))"
    proof (rule for_each_map)
      fix fam assume "fam \<in> set (families net)"
      then have "\<forall>b \<in> set (members fam). b < length cn"
        using valid'[OF that] by simp
      then show "inline_update_family ?ii cn ms fam = Inr (?g fam)"
        by (rule inline_update_family_result)
    qed
    then show ?thesis by simp
  qed
  have row: "(case for_each ?fn nets of Inl e \<Rightarrow> Inl e | Inr ns \<Rightarrow> Inr (key, ns))
             = Inr (key, map ?n nets)" if "(key, nets) \<in> set rd" for key nets
  proof -
    have "for_each ?fn nets = Inr (map ?n nets)"
    proof (rule for_each_map)
      fix net' assume "net' \<in> set nets"
      then show "?fn net' = Inr (?n net')" by (rule net[OF that])
    qed
    then show ?thesis by simp
  qed
  show "inline_family_update rd ?ii cn ms = Inr (map (\<lambda>(key, nets). (key, map ?n nets)) rd)"
    unfolding inline_family_update_def
  proof (rule for_each_map)
    fix x assume x: "x \<in> set rd"
    obtain key nets where kn: "x = (key, nets)" by (cases x)
    from x kn have "(key, nets) \<in> set rd" by simp
    from row[OF this]
    show "(case x of (network_key, networks) \<Rightarrow>
             case for_each ?fn networks of Inl e \<Rightarrow> Inl e | Inr ns \<Rightarrow> Inr (network_key, ns))
          = Inr (case x of (key, nets) \<Rightarrow> (key, map ?n nets))"
      unfolding kn prod.case .
  qed
next
  show "\<forall>b < length cn. cn ! b \<notin> ms \<longrightarrow>
          projr (py_index (input_clusters_idx cn ms) b) < length (input_clusters_idx cn ms)
        \<and> input_clusters_idx cn ms ! projr (py_index (input_clusters_idx cn ms) b) = b"
  proof (intro allI impI)
    fix b assume "b < length cn" "cn ! b \<notin> ms"
    then have m: "b \<in> set (input_clusters_idx cn ms)" by (simp add: set_input_clusters_idx)
    show "projr (py_index (input_clusters_idx cn ms) b) < length (input_clusters_idx cn ms)
        \<and> input_clusters_idx cn ms ! projr (py_index (input_clusters_idx cn ms) b) = b"
      using py_index_projr(2)[OF m] py_index_projr(3)[OF m] by (rule conjI)
  qed
qed

theorem family_members_input_only_witness:
  "inline_family_update
       [(''net_c0.30'', [\<lparr>families = [\<lparr>members = [0, 1, 2, 3], mibig = []\<rparr>]\<rparr>])]
       (input_clusters_idx [''BGC0000001'', ''clusterA'', ''BGC0000002'', ''clusterB''] {''BGC0000001'', ''BGC0000002''})
       [''BGC0000001'', ''clusterA'', ''BGC0000002'', ''clusterB''] {''BGC0000001'', ''BGC0000002''}
     = Inr [(''net_c0.30'', [\<lparr>families = [\<lparr>members = [0, 1], mibig = [''BGC0000001'', ''BGC0000002'']\<rparr>]\<rparr>])]"
proof -
  have h: "\<forall>(key, nets) \<in> set [(''net_c0.30'', [\<lparr>families = [\<lparr>members = [0, 1, 2, 3], mibig = []\<rparr>]\<rparr>])].
      \<forall>net \<in> set nets. \<forall>fam \<in> set (families net). \<forall>b \<in> set (members fam).
        b < length [''BGC0000001'', ''clusterA'', ''BGC0000002'', ''clusterB'']"
    by simp
  have e: "input_clusters_idx [''BGC0000001'', ''clusterA'', ''BGC0000002'', ''clusterB'']
           {''BGC0000001'', ''BGC0000002''} = [1, 3]"
    by code_simp
  have p: "projr (py_index [1, 3] (1::nat)) = 0" "projr (py_index [1, 3] (3::nat)) = 1"
    by simp_all
  from family_members_input_only[OF h, of "{''BGC0000001'', ''BGC0000002''}"]
  have "inline_family_update
       [(''net_c0.30'', [\<lparr>families = [\<lparr>members = [0, 1, 2, 3], mibig = []\<rparr>]\<rparr>])]
       (input_clusters_idx [''BGC0000001'', ''clusterA'', ''BGC0000002'', ''clusterB''] {''BGC0000001'', ''BGC0000002''})
       [''BGC0000001'', ''clusterA'', ''BGC0000002'', ''clusterB''] {''BGC0000001'', ''BGC0000002''}
     = Inr [(''net_c0.30'', [\<lparr>families = [\<lparr>members = [0, 1], mibig = [''BGC0000001'', ''BGC0000002'']\<rparr>]\<rparr>])]"
    by (simp add: e p)
  then show ?thesis .
qed

end
